theory Spec2Isabelle
  imports Complex_Main
begin

section \<open>Strings\<close>

text \<open>
  A URL is a Python \<open>str\<close>. It is modelled as a \<open>string\<close>, a list of 8-bit characters
  read as the code points 0 to 255 (Latin-1). On these code points \<open>str.lower\<close> works
  character by character: the letters A to Z (65 to 90) and the accented capitals
  (192 to 222, the multiplication sign 215 apart) move up by 32, every other code
  point stays, and the result is again below 256.
\<close>

definition lower_char :: "char \<Rightarrow> char" where
  "lower_char c =
     (let n = (of_char c :: nat)
      in if (65 \<le> n \<and> n \<le> 90) \<or> (192 \<le> n \<and> n \<le> 222 \<and> n \<noteq> 215)
         then char_of (n + 32) else c)"

definition lower :: "string \<Rightarrow> string" where
  "lower s = map lower_char s"

text \<open>\<open>s.startswith('/')\<close>: false on the empty string.\<close>

definition startswith_slash :: "string \<Rightarrow> bool" where
  "startswith_slash s = (case s of [] \<Rightarrow> False | c # _ \<Rightarrow> c = CHR ''/'')"

section \<open>URL Normalizer\<close>

text \<open>
  \<^verbatim>\<open>
  def normalize_url(url):
      if not url.startswith('/'):
          url = '/' + url
      return url.lower()
  \<close>
\<close>

definition normalize_url :: "string \<Rightarrow> string" where
  "normalize_url url =
     (let url = (if \<not> startswith_slash url then ''/'' @ url else url)
      in lower url)"

section \<open>Similarity Matcher\<close>

text \<open>
  The similarity score is \<open>SequenceMatcher(None, a, b).ratio()\<close> of Python's standard
  library, a collaborator outside this program. The matcher takes it as the
  parameter \<open>sim\<close>, so what is proved of the matcher holds for every scoring
  function. Scores are rationals: the library returns the double nearest to
  \<open>2 * M / T\<close>, where \<open>M\<close> counts matched characters and \<open>T\<close> is the length of both
  strings together. Two different such quotients are more than \<open>1 / T^2\<close> apart and
  a quotient other than 3/5 is at least \<open>1 / (5 * T)\<close> away from it, so for URLs of
  fewer than \<open>2^25\<close> characters comparing the doubles with each other and with the
  literal \<open>0.6\<close> gives what comparing the exact quotients gives.

  \<^verbatim>\<open>
  def find_best_match(new_url, old_urls):
      normalized_new = normalize_url(new_url)
      best_match = None
      best_score = 0
      for old_url in old_urls:
          normalized_old = normalize_url(old_url)
          score = SequenceMatcher(None, normalized_new, normalized_old).ratio()
          if score > best_score:
              best_score = score
              best_match = old_url
      return (best_match, best_score) if best_score > 0.6 else (None, 0)
  \<close>
  The loop is \<open>scan_old_urls\<close>, with the pair \<open>(best_match, best_score)\<close> as its state.
\<close>

type_synonym similarity = "string \<Rightarrow> string \<Rightarrow> rat"

fun scan_old_urls ::
  "similarity \<Rightarrow> string \<Rightarrow> string list \<Rightarrow> string option \<times> rat \<Rightarrow> string option \<times> rat"
where
  "scan_old_urls sim normalized_new [] (best_match, best_score) = (best_match, best_score)"
| "scan_old_urls sim normalized_new (old_url # rest) (best_match, best_score) =
     (let normalized_old = normalize_url old_url;
          score = sim normalized_new normalized_old
      in if score > best_score
         then scan_old_urls sim normalized_new rest (Some old_url, score)
         else scan_old_urls sim normalized_new rest (best_match, best_score))"

definition find_best_match ::
  "similarity \<Rightarrow> string \<Rightarrow> string list \<Rightarrow> string option \<times> rat"
where
  "find_best_match sim new_url old_urls =
     (let normalized_new = normalize_url new_url;
          (best_match, best_score) = scan_old_urls sim normalized_new old_urls (None, 0)
      in if best_score > 6 / 10 then (best_match, best_score) else (None, 0))"

section \<open>Files\<close>

text \<open>
  The CSV writer and the file system are collaborators too. A written file is
  modelled as the list of rows handed to \<open>csv.writer\<close>, a row as the list of its
  fields; the file system maps a path to the rows of the file there. Opening a
  file in mode \<open>'w'\<close> replaces what was there.
\<close>

type_synonym csv_row = "string list"

record file_system =
  dirs :: "string set"
  files :: "string \<rightharpoonup> csv_row list"

definition makedirs :: "string \<Rightarrow> file_system \<Rightarrow> file_system" where
  "makedirs path fs = fs\<lparr>dirs := insert path (dirs fs)\<rparr>"

definition write_csv :: "string \<Rightarrow> csv_row list \<Rightarrow> file_system \<Rightarrow> file_system" where
  "write_csv path rows fs = fs\<lparr>files := (files fs)(path \<mapsto> rows)\<rparr>"

text \<open>\<open>os.path.join(a, b)\<close> on a POSIX system.\<close>

definition path_join :: "string \<Rightarrow> string \<Rightarrow> string" where
  "path_join a b =
     (if startswith_slash b then b
      else if a = [] \<or> last a = CHR ''/'' then a @ b
      else a @ ''/'' @ b)"

text \<open>\<open>str(n)\<close> of an integer, as the f-string writes the batch number.\<close>

fun str_nat :: "nat \<Rightarrow> string" where
  "str_nat n = (if n < 10 then [char_of (48 + n)] else str_nat (n div 10) @ [char_of (48 + n mod 10)])"

declare str_nat.simps [simp del]

definition str_int :: "int \<Rightarrow> string" where
  "str_int i = (if i < 0 then ''-'' @ str_nat (nat (- i)) else str_nat (nat i))"

section \<open>Batch Processor\<close>

text \<open>
  \<^verbatim>\<open>
  def process_batch(batch, old_urls, batch_number, output_dir):
      matched_results = []
      unmatched_results = []
      for i, new_url in enumerate(batch, 1):
          if not new_url.startswith('/'):
              new_url = '/' + new_url
          matched_url, score = find_best_match(new_url, old_urls)
          if matched_url:
              if not matched_url.startswith('/'):
                  matched_url = '/' + matched_url
              matched_results.append([new_url, matched_url])
          else:
              unmatched_results.append([new_url])
      os.makedirs(output_dir, exist_ok=True)
      if matched_results:
          matched_output_path = os.path.join(output_dir, f'matched_urls_batch_{batch_number}.csv')
          ... writer.writerow(['cToUrl', 'cFromUrl']); writer.writerows(matched_results)
      if unmatched_results:
          unmatched_output_path = os.path.join(output_dir, f'unmatched_urls_batch_{batch_number}.csv')
          ... writer.writerow(['cToUrl']); writer.writerows(unmatched_results)
      return len(matched_results), len(unmatched_results)
  \<close>
  The progress lines printed on the way are left out. The test \<open>if matched_url:\<close> is
  Python's truth value of the returned candidate: \<open>None\<close> and the empty string are
  both false.
\<close>

definition ensure_slash :: "string \<Rightarrow> string" where
  "ensure_slash url = (if \<not> startswith_slash url then ''/'' @ url else url)"

fun classify_urls ::
  "similarity \<Rightarrow> string list \<Rightarrow> string list \<Rightarrow> csv_row list \<times> csv_row list
     \<Rightarrow> csv_row list \<times> csv_row list"
where
  "classify_urls sim old_urls [] (matched_results, unmatched_results) =
     (matched_results, unmatched_results)"
| "classify_urls sim old_urls (new_url # rest) (matched_results, unmatched_results) =
     (let new_url = ensure_slash new_url;
          (matched_url, score) = find_best_match sim new_url old_urls
      in case matched_url of
           None \<Rightarrow>
             classify_urls sim old_urls rest (matched_results, unmatched_results @ [[new_url]])
         | Some matched_url \<Rightarrow>
             if matched_url \<noteq> []
             then classify_urls sim old_urls rest
                    (matched_results @ [[new_url, ensure_slash matched_url]], unmatched_results)
             else classify_urls sim old_urls rest
                    (matched_results, unmatched_results @ [[new_url]]))"

definition matched_output_path :: "string \<Rightarrow> int \<Rightarrow> string" where
  "matched_output_path output_dir batch_number =
     path_join output_dir (''matched_urls_batch_'' @ str_int batch_number @ ''.csv'')"

definition unmatched_output_path :: "string \<Rightarrow> int \<Rightarrow> string" where
  "unmatched_output_path output_dir batch_number =
     path_join output_dir (''unmatched_urls_batch_'' @ str_int batch_number @ ''.csv'')"

definition process_batch ::
  "similarity \<Rightarrow> string list \<Rightarrow> string list \<Rightarrow> int \<Rightarrow> string \<Rightarrow> file_system
     \<Rightarrow> (nat \<times> nat) \<times> file_system"
where
  "process_batch sim batch old_urls batch_number output_dir fs =
     (let (matched_results, unmatched_results) = classify_urls sim old_urls batch ([], []);
          fs = makedirs output_dir fs;
          fs = (if matched_results \<noteq> []
                then write_csv (matched_output_path output_dir batch_number)
                       ([''cToUrl'', ''cFromUrl''] # matched_results) fs
                else fs);
          fs = (if unmatched_results \<noteq> []
                then write_csv (unmatched_output_path output_dir batch_number)
                       ([''cToUrl''] # unmatched_results) fs
                else fs)
      in ((length matched_results, length unmatched_results), fs))"

section \<open>Batch Orchestrator\<close>










section \<open>The sequence matcher of the standard library\<close>

text \<open>
  \<open>difflib.SequenceMatcher(None, a, b).ratio()\<close>, as the program calls it: no junk
  predicate, and the automatic junk heuristic left on. It is modelled here to run the
  matcher on concrete URLs and to check what the program relies on.

  \<open>__chain_b\<close> builds \<open>b2j\<close>, which maps an element of \<open>b\<close> to the ascending list of
  its positions in \<open>b\<close>; when \<open>b\<close> has 200 elements or more, an element filling more than
  1 + len(b) // 100 positions is popular and loses its entry.
\<close>

definition indices_of :: "'a list \<Rightarrow> 'a \<Rightarrow> nat list" where
  "indices_of b elt = filter (\<lambda>j. b ! j = elt) [0..<length b]"

definition popular :: "'a list \<Rightarrow> 'a \<Rightarrow> bool" where
  "popular b elt = (length b \<ge> 200 \<and> length (indices_of b elt) > length b div 100 + 1)"

definition b2j :: "'a list \<Rightarrow> 'a \<Rightarrow> nat list" where
  "b2j b elt = (if popular b elt then [] else indices_of b elt)"

text \<open>
  \<open>find_longest_match(alo, ahi, blo, bhi)\<close>. The state of its two nested loops is
  \<open>(j2len, besti, bestj, bestsize)\<close>; \<open>row_loop\<close> is the loop over the positions
  \<open>j\<close> of \<open>a[i]\<close> in \<open>b\<close> and \<open>rows_loop\<close> the loop over \<open>i\<close>.
  \<^verbatim>\<open>
  besti, bestj, bestsize = alo, blo, 0
  j2len = {}
  for i in range(alo, ahi):
      newj2len = {}
      for j in b2j.get(a[i], nothing):
          if j < blo: continue
          if j >= bhi: break
          k = newj2len[j] = j2len.get(j-1, 0) + 1
          if k > bestsize:
              besti, bestj, bestsize = i-k+1, j-k+1, k
      j2len = newj2len
  \<close>
  Indices are naturals: \<open>j2len.get(j-1, 0)\<close> at \<open>j = 0\<close> asks for the key -1, which
  no dictionary holds, and \<open>i-k+1\<close> is written \<open>i + 1 - k\<close>, as \<open>k\<close> never exceeds
  \<open>i + 1\<close> (lemma \<open>row_step_ok\<close>).
\<close>

type_synonym match_state = "(nat \<rightharpoonup> nat) \<times> nat \<times> nat \<times> nat"

fun row_loop :: "nat \<Rightarrow> nat \<Rightarrow> nat \<Rightarrow> (nat \<rightharpoonup> nat) \<Rightarrow> nat list \<Rightarrow> match_state \<Rightarrow> match_state" where
  "row_loop i blo bhi j2len [] st = st"
| "row_loop i blo bhi j2len (j # js) (newj2len, besti, bestj, bestsize) =
     (if j < blo then row_loop i blo bhi j2len js (newj2len, besti, bestj, bestsize)
      else if j \<ge> bhi then (newj2len, besti, bestj, bestsize)
      else let k = (if j = 0 then 0 else case j2len (j - 1) of None \<Rightarrow> 0 | Some v \<Rightarrow> v) + 1;
               newj2len = newj2len(j \<mapsto> k)
           in if k > bestsize
              then row_loop i blo bhi j2len js (newj2len, i + 1 - k, j + 1 - k, k)
              else row_loop i blo bhi j2len js (newj2len, besti, bestj, bestsize))"

fun rows_loop :: "'a list \<Rightarrow> 'a list \<Rightarrow> nat \<Rightarrow> nat \<Rightarrow> nat list \<Rightarrow> match_state \<Rightarrow> match_state" where
  "rows_loop a b blo bhi [] st = st"
| "rows_loop a b blo bhi (i # is) (j2len, besti, bestj, bestsize) =
     rows_loop a b blo bhi is
       (row_loop i blo bhi j2len (b2j b (a ! i)) (Map.empty, besti, bestj, bestsize))"

text \<open>
  The best block is then extended to both sides while the elements agree. Without a
  junk predicate the set \<open>bjunk\<close> is empty, so the test \<open>not isbjunk(...)\<close> of these
  two loops always passes, and the two further loops that extend over junk never run.
  \<^verbatim>\<open>
  while besti > alo and bestj > blo and not isbjunk(b[bestj-1]) and a[besti-1] == b[bestj-1]:
      besti, bestj, bestsize = besti-1, bestj-1, bestsize+1
  while besti+bestsize < ahi and bestj+bestsize < bhi and \
        not isbjunk(b[bestj+bestsize]) and a[besti+bestsize] == b[bestj+bestsize]:
      bestsize += 1
  \<close>
\<close>

fun extend_left :: "'a list \<Rightarrow> 'a list \<Rightarrow> nat \<Rightarrow> nat \<Rightarrow> nat \<times> nat \<times> nat \<Rightarrow> nat \<times> nat \<times> nat" where
  "extend_left a b alo blo (besti, bestj, bestsize) =
     (if besti > alo \<and> bestj > blo \<and> a ! (besti - 1) = b ! (bestj - 1)
      then extend_left a b alo blo (besti - 1, bestj - 1, bestsize + 1)
      else (besti, bestj, bestsize))"

declare extend_left.simps [simp del]

function extend_right :: "'a list \<Rightarrow> 'a list \<Rightarrow> nat \<Rightarrow> nat \<Rightarrow> nat \<times> nat \<times> nat \<Rightarrow> nat \<times> nat \<times> nat" where
  "extend_right a b ahi bhi (besti, bestj, bestsize) =
     (if besti + bestsize < ahi \<and> bestj + bestsize < bhi
         \<and> a ! (besti + bestsize) = b ! (bestj + bestsize)
      then extend_right a b ahi bhi (besti, bestj, bestsize + 1)
      else (besti, bestj, bestsize))"
  by pat_completeness auto
termination
  by (relation "measure (\<lambda>(a, b, ahi, bhi, besti, bestj, bestsize). ahi - (besti + bestsize))") auto

declare extend_right.simps [simp del]

definition find_longest_match :: "'a list \<Rightarrow> 'a list \<Rightarrow> nat \<Rightarrow> nat \<Rightarrow> nat \<Rightarrow> nat \<Rightarrow> nat \<times> nat \<times> nat" where
  "find_longest_match a b alo ahi blo bhi =
     (let (j2len, besti, bestj, bestsize) =
            rows_loop a b blo bhi [alo..<ahi] (Map.empty, alo, blo, 0)
      in extend_right a b ahi bhi (extend_left a b alo blo (besti, bestj, bestsize)))"


text \<open>
  What a matching block is: it lies inside both ranges and the elements agree along
  it. The loops keep their best block such a block (or the empty start value), which
  is what makes the recursion of \<open>get_matching_blocks\<close> terminate.
\<close>

definition block_ok :: "'a list \<Rightarrow> 'a list \<Rightarrow> nat \<Rightarrow> nat \<Rightarrow> nat \<Rightarrow> nat \<Rightarrow> nat \<times> nat \<times> nat \<Rightarrow> bool" where
  "block_ok a b alo ahi blo bhi m =
     (case m of (i, j, k) \<Rightarrow>
        alo \<le> i \<and> i + k \<le> ahi \<and> blo \<le> j \<and> j + k \<le> bhi \<and> (\<forall>t<k. a ! (i + t) = b ! (j + t)))"

definition best_ok :: "'a list \<Rightarrow> 'a list \<Rightarrow> nat \<Rightarrow> nat \<Rightarrow> nat \<Rightarrow> nat \<Rightarrow> nat \<times> nat \<times> nat \<Rightarrow> bool" where
  "best_ok a b alo ahi blo bhi m = (m = (alo, blo, 0) \<or> block_ok a b alo ahi blo bhi m)"

definition j2len_ok :: "'a list \<Rightarrow> 'a list \<Rightarrow> nat \<Rightarrow> nat \<Rightarrow> nat \<Rightarrow> nat \<Rightarrow> (nat \<rightharpoonup> nat) \<Rightarrow> bool" where
  "j2len_ok a b alo blo bhi n j2len =
     (\<forall>j v. j2len j = Some v \<longrightarrow>
        1 \<le> v \<and> alo + v \<le> n \<and> blo + v \<le> j + 1 \<and> j < bhi
        \<and> (\<forall>t<v. a ! (n - 1 - t) = b ! (j - t)))"

lemma j2len_ok_empty: "j2len_ok a b alo blo bhi n Map.empty"
  by (simp add: j2len_ok_def)

lemma best_ok_mono: "best_ok a b alo ahi blo bhi m \<Longrightarrow> ahi \<le> ahi' \<Longrightarrow> best_ok a b alo ahi' blo bhi m"
  by (auto simp add: best_ok_def block_ok_def)

lemma row_step_ok:
  assumes prev: "j2len_ok a b alo blo bhi i j2len"
    and i: "alo \<le> i" and j: "blo \<le> j" "j < bhi" and eq: "b ! j = a ! i"
    and k: "k = (if j = 0 then 0 else case j2len (j - 1) of None \<Rightarrow> 0 | Some v \<Rightarrow> v) + 1"
  shows "1 \<le> k \<and> alo + k \<le> i + 1 \<and> blo + k \<le> j + 1
         \<and> (\<forall>t<k. a ! (i - t) = b ! (j - t))"
proof (cases "j = 0 \<or> j2len (j - 1) = None")
  case True
  then have "k = 1" using k by auto
  then show ?thesis using i j eq by simp
next
  case False
  then obtain v where v: "j2len (j - 1) = Some v" and j0: "j \<noteq> 0" by auto
  then have kv: "k = v + 1" using k by simp
  from prev v have p: "1 \<le> v" "alo + v \<le> i" "blo + v \<le> j - 1 + 1" "j - 1 < bhi"
    "\<forall>t<v. a ! (i - 1 - t) = b ! (j - 1 - t)"
    by (auto simp add: j2len_ok_def)
  have "\<forall>t<k. a ! (i - t) = b ! (j - t)"
  proof (intro allI impI)
    fix t assume t: "t < k"
    show "a ! (i - t) = b ! (j - t)"
    proof (cases t)
      case 0
      then show ?thesis using eq by simp
    next
      case (Suc t')
      then have "t' < v" using t kv by simp
      then have "a ! (i - 1 - t') = b ! (j - 1 - t')" using p(5) by simp
      then show ?thesis using Suc by simp
    qed
  qed
  then show ?thesis using p j0 kv by simp
qed

lemma row_loop_ok:
  assumes prev: "j2len_ok a b alo blo bhi i j2len" and i: "alo \<le> i"
    and js: "\<forall>j\<in>set js. b ! j = a ! i"
    and acc: "j2len_ok a b alo blo bhi (i + 1) newj2len"
    and best: "best_ok a b alo (i + 1) blo bhi (besti, bestj, bestsize)"
    and res: "row_loop i blo bhi j2len js (newj2len, besti, bestj, bestsize) = (n', m')"
  shows "j2len_ok a b alo blo bhi (i + 1) n' \<and> best_ok a b alo (i + 1) blo bhi m'"
  using js acc best res
proof (induction js arbitrary: newj2len besti bestj bestsize)
  case Nil
  then show ?case by simp
next
  case (Cons j js)
  show ?case
  proof (cases "j < blo")
    case True
    then show ?thesis using Cons by simp
  next
    case False
    note ge = False
    show ?thesis
    proof (cases "j \<ge> bhi")
      case True
      then show ?thesis using ge Cons by simp
    next
      case False
      define k where "k = (if j = 0 then 0 else case j2len (j - 1) of None \<Rightarrow> 0 | Some v \<Rightarrow> v) + 1"
      have eq: "b ! j = a ! i" using Cons.prems(1) by simp
      have js': "\<forall>j\<in>set js. b ! j = a ! i" using Cons.prems(1) by simp
      have st: "1 \<le> k \<and> alo + k \<le> i + 1 \<and> blo + k \<le> j + 1
         \<and> (\<forall>t<k. a ! (i - t) = b ! (j - t))"
        using row_step_ok [OF prev i _ _ eq k_def] ge False by simp
      have acc': "j2len_ok a b alo blo bhi (i + 1) (newj2len(j \<mapsto> k))"
        using Cons.prems(2) st False by (auto simp add: j2len_ok_def)
      have blk: "block_ok a b alo (i + 1) blo bhi (i + 1 - k, j + 1 - k, k)"
      proof -
        have "\<forall>t<k. a ! (i + 1 - k + t) = b ! (j + 1 - k + t)"
        proof (intro allI impI)
          fix t assume t: "t < k"
          then have "k - 1 - t < k" by simp
          then have h: "a ! (i - (k - 1 - t)) = b ! (j - (k - 1 - t))" using st by blast
          have e1: "i - (k - 1 - t) = i + 1 - k + t" using t st by arith
          have e2: "j - (k - 1 - t) = j + 1 - k + t" using t st by arith
          from h show "a ! (i + 1 - k + t) = b ! (j + 1 - k + t)" unfolding e1 e2 .
        qed
        moreover have "alo \<le> i + 1 - k" "blo \<le> j + 1 - k" "i + 1 - k + k \<le> i + 1"
          "j + 1 - k + k \<le> bhi"
          using st False by arith+
        ultimately show ?thesis unfolding block_ok_def by simp
      qed
      show ?thesis
      proof (cases "k > bestsize")
        case True
        have res': "row_loop i blo bhi j2len js (newj2len(j \<mapsto> k), i + 1 - k, j + 1 - k, k) = (n', m')"
          using Cons.prems(4) ge False True by (simp add: k_def Let_def)
        have best': "best_ok a b alo (i + 1) blo bhi (i + 1 - k, j + 1 - k, k)"
          using blk by (simp add: best_ok_def)
        show ?thesis by (rule Cons.IH [OF js' acc' best' res'])
      next
        case F: False
        have res': "row_loop i blo bhi j2len js (newj2len(j \<mapsto> k), besti, bestj, bestsize) = (n', m')"
          using Cons.prems(4) ge False F by (simp add: k_def Let_def)
        show ?thesis by (rule Cons.IH [OF js' acc' Cons.prems(3) res'])
      qed
    qed
  qed
qed

lemma indices_of_nth: "j \<in> set (indices_of b elt) \<Longrightarrow> b ! j = elt"
  by (simp add: indices_of_def)

lemma b2j_nth: "j \<in> set (b2j b elt) \<Longrightarrow> b ! j = elt"
  by (auto simp add: b2j_def indices_of_nth split: if_splits)

lemma rows_loop_ok:
  assumes "j2len_ok a b alo blo bhi lo j2len" and "alo \<le> lo"
    and "best_ok a b alo lo blo bhi m"
    and "rows_loop a b blo bhi [lo..<hi] (j2len, m) = (n', m')"
  shows "best_ok a b alo (max lo hi) blo bhi m'"
  using assms
proof (induction "hi - lo" arbitrary: lo j2len m)
  case 0
  then show ?case by (simp add: max_def)
next
  case (Suc d)
  then have lt: "lo < hi" by simp
  obtain besti bestj bestsize where m: "m = (besti, bestj, bestsize)" by (cases m) auto
  define n1 where "n1 = fst (row_loop lo blo bhi j2len (b2j b (a ! lo)) (Map.empty, besti, bestj, bestsize))"
  define m1 where "m1 = snd (row_loop lo blo bhi j2len (b2j b (a ! lo)) (Map.empty, besti, bestj, bestsize))"
  have r1: "row_loop lo blo bhi j2len (b2j b (a ! lo)) (Map.empty, besti, bestj, bestsize) = (n1, m1)"
    by (simp add: n1_def m1_def)
  have js: "\<forall>j\<in>set (b2j b (a ! lo)). b ! j = a ! lo"
    by (simp add: b2j_nth)
  have b1: "best_ok a b alo (lo + 1) blo bhi (besti, bestj, bestsize)"
    using best_ok_mono [OF Suc.prems(3) [unfolded m], of "lo + 1"] by simp
  have ok1: "j2len_ok a b alo blo bhi (lo + 1) n1 \<and> best_ok a b alo (lo + 1) blo bhi m1"
    by (rule row_loop_ok [OF Suc.prems(1) Suc.prems(2) js j2len_ok_empty b1 r1])
  have "rows_loop a b blo bhi [Suc lo..<hi] (n1, m1) = (n', m')"
    using Suc.prems(4) lt r1 m by (simp add: upt_conv_Cons)
  then have "best_ok a b alo (max (Suc lo) hi) blo bhi m'"
    using Suc.hyps(1) [of "Suc lo" n1 m1] Suc.hyps(2) ok1 Suc.prems(2) by simp
  then show ?case using lt by (simp add: max_def)
qed

lemma extend_left_ok:
  "best_ok a b alo ahi blo bhi m \<Longrightarrow> best_ok a b alo ahi blo bhi (extend_left a b alo blo m)"
proof (induction a b alo blo m rule: extend_left.induct)
  case (1 a b alo blo besti bestj bestsize)
  show ?case
  proof (cases "besti > alo \<and> bestj > blo \<and> a ! (besti - 1) = b ! (bestj - 1)")
    case True
    then have blk: "block_ok a b alo ahi blo bhi (besti, bestj, bestsize)"
      using "1.prems" by (auto simp add: best_ok_def)
    have "\<forall>t<bestsize + 1. a ! (besti - 1 + t) = b ! (bestj - 1 + t)"
    proof (intro allI impI)
      fix t assume "t < bestsize + 1"
      then show "a ! (besti - 1 + t) = b ! (bestj - 1 + t)"
        using True blk by (cases t) (auto simp add: block_ok_def)
    qed
    then have "block_ok a b alo ahi blo bhi (besti - 1, bestj - 1, bestsize + 1)"
      using True blk by (auto simp add: block_ok_def)
    then have "best_ok a b alo ahi blo bhi (besti - 1, bestj - 1, bestsize + 1)"
      by (simp add: best_ok_def)
    then have "best_ok a b alo ahi blo bhi (extend_left a b alo blo (besti - 1, bestj - 1, bestsize + 1))"
      using "1.IH" True by blast
    then show ?thesis using True by (subst extend_left.simps) simp
  next
    case False
    then show ?thesis using "1.prems" by (subst extend_left.simps) auto
  qed
qed

lemma extend_right_ok:
  "best_ok a b alo ahi blo bhi m \<Longrightarrow> best_ok a b alo ahi blo bhi (extend_right a b ahi bhi m)"
proof (induction a b ahi bhi m rule: extend_right.induct)
  case (1 a b ahi bhi besti bestj bestsize)
  show ?case
  proof (cases "besti + bestsize < ahi \<and> bestj + bestsize < bhi
         \<and> a ! (besti + bestsize) = b ! (bestj + bestsize)")
    case True
    have bounds: "alo \<le> besti \<and> blo \<le> bestj \<and> (\<forall>t<bestsize. a ! (besti + t) = b ! (bestj + t))"
      using "1.prems" by (auto simp add: best_ok_def block_ok_def)
    have "\<forall>t<bestsize + 1. a ! (besti + t) = b ! (bestj + t)"
    proof (intro allI impI)
      fix t assume "t < bestsize + 1"
      then have "t < bestsize \<or> t = bestsize" by auto
      then show "a ! (besti + t) = b ! (bestj + t)" using True bounds by auto
    qed
    then have "block_ok a b alo ahi blo bhi (besti, bestj, bestsize + 1)"
      using True bounds by (auto simp add: block_ok_def)
    then have "best_ok a b alo ahi blo bhi (besti, bestj, bestsize + 1)"
      by (simp add: best_ok_def)
    then have "best_ok a b alo ahi blo bhi (extend_right a b ahi bhi (besti, bestj, bestsize + 1))"
      using "1.IH" True by blast
    then show ?thesis using True by (subst extend_right.simps) simp
  next
    case False
    then show ?thesis using "1.prems" by (subst extend_right.simps) auto
  qed
qed

lemma find_longest_match_ok:
  assumes "find_longest_match a b alo ahi blo bhi = (i, j, k)" and "k \<noteq> 0"
  shows "block_ok a b alo ahi blo bhi (i, j, k)"
proof -
  define n' where "n' = fst (rows_loop a b blo bhi [alo..<ahi] (Map.empty, alo, blo, 0))"
  define m' where "m' = snd (rows_loop a b blo bhi [alo..<ahi] (Map.empty, alo, blo, 0))"
  have r: "rows_loop a b blo bhi [alo..<ahi] (Map.empty, alo, blo, 0) = (n', m')"
    by (simp add: n'_def m'_def)
  have m': "best_ok a b alo ahi blo bhi m'"
  proof (cases "alo < ahi")
    case True
    have "best_ok a b alo (max alo ahi) blo bhi m'"
      using rows_loop_ok [OF j2len_ok_empty _ _ r] by (simp add: best_ok_def)
    then show ?thesis using True by (simp add: max_def)
  next
    case False
    then have "m' = (alo, blo, 0)" using r by simp
    then show ?thesis by (simp add: best_ok_def)
  qed
  have "(i, j, k) = extend_right a b ahi bhi (extend_left a b alo blo m')"
    using assms(1) r by (cases m') (simp add: find_longest_match_def)
  then have "best_ok a b alo ahi blo bhi (i, j, k)"
    using extend_right_ok [OF extend_left_ok [OF m']] by simp
  then show ?thesis using assms(2) by (simp add: best_ok_def)
qed

text \<open>
  \<open>get_matching_blocks\<close> takes the longest block of a range and goes on to the left
  and to the right of it:
  \<^verbatim>\<open>
  queue = [(0, la, 0, lb)]
  while queue:
      alo, ahi, blo, bhi = queue.pop()
      i, j, k = x = self.find_longest_match(alo, ahi, blo, bhi)
      if k:
          matching_blocks.append(x)
          if alo < i and blo < j: queue.append((alo, i, blo, j))
          if i+k < ahi and j+k < bhi: queue.append((i+k, ahi, j+k, bhi))
  matching_blocks.sort()
  \<close>
  The work list is the recursion here, and the blocks come out in sorted order. The
  library then merges adjacent blocks, which leaves the sum of their sizes, all that
  \<open>ratio\<close> reads, as it is.
\<close>

function matching_blocks :: "'a list \<Rightarrow> 'a list \<Rightarrow> nat \<times> nat \<times> nat \<times> nat \<Rightarrow> (nat \<times> nat \<times> nat) list" where
  "matching_blocks a b (alo, ahi, blo, bhi) =
     (let x = find_longest_match a b alo ahi blo bhi;
          i = fst x; j = fst (snd x); k = snd (snd x)
      in if k \<noteq> 0
         then (if alo < i \<and> blo < j then matching_blocks a b (alo, i, blo, j) else [])
              @ [x]
              @ (if i + k < ahi \<and> j + k < bhi then matching_blocks a b (i + k, ahi, j + k, bhi) else [])
         else [])"
  by pat_completeness auto
termination
proof (relation "measure (\<lambda>(a, b, alo, ahi, blo, bhi). ahi - alo)", goal_cases)
  case 1
  show ?case by simp
next
  case (2 a b alo ahi blo bhi x i j k)
  then have "block_ok a b alo ahi blo bhi (i, j, k)"
    by (intro find_longest_match_ok) auto
  then show ?case using 2 by (auto simp add: block_ok_def split: prod.splits)
next
  case (3 a b alo ahi blo bhi x i j k)
  then have "block_ok a b alo ahi blo bhi (i, j, k)"
    by (intro find_longest_match_ok) auto
  then show ?case using 3 by (auto simp add: block_ok_def split: prod.splits)
qed

declare matching_blocks.simps [simp del]

text \<open>
  \<^verbatim>\<open>
  matches = sum(triple[-1] for triple in self.get_matching_blocks())
  return _calculate_ratio(matches, len(self.a) + len(self.b))

  def _calculate_ratio(matches, length):
      if length: return 2.0 * matches / length
      return 1.0
  \<close>
\<close>

definition ratio :: "'a list \<Rightarrow> 'a list \<Rightarrow> rat" where
  "ratio a b =
     (let matches = sum_list (map (\<lambda>(i, j, k). k) (matching_blocks a b (0, length a, 0, length b)));
          len = length a + length b
      in if len \<noteq> 0 then 2 * of_nat matches / of_nat len else 1)"

section \<open>The results of a batch and of a run, described directly\<close>

text \<open>
  What the loop of \<open>process_batch\<close> collects, said without the loop: a new URL
  gives a matched row when the matcher returns a candidate that is not the empty
  string, and an unmatched row otherwise.
\<close>

definition matched_row :: "similarity \<Rightarrow> string list \<Rightarrow> string \<Rightarrow> csv_row option" where
  "matched_row sim old_urls new_url =
     (case fst (find_best_match sim (ensure_slash new_url) old_urls) of
        None \<Rightarrow> None
      | Some old_url \<Rightarrow>
          if old_url \<noteq> [] then Some [ensure_slash new_url, ensure_slash old_url] else None)"

definition matched_rows :: "similarity \<Rightarrow> string list \<Rightarrow> string list \<Rightarrow> csv_row list" where
  "matched_rows sim old_urls batch = List.map_filter (matched_row sim old_urls) batch"

definition unmatched_rows :: "similarity \<Rightarrow> string list \<Rightarrow> string list \<Rightarrow> csv_row list" where
  "unmatched_rows sim old_urls batch =
     map (\<lambda>new_url. [ensure_slash new_url])
       (filter (\<lambda>new_url. matched_row sim old_urls new_url = None) batch)"


section \<open>Notions for the proofs about the sequence matcher\<close>

text \<open>The number of matched elements in a range, the sum that \<open>ratio\<close> takes.\<close>

definition matches :: "'a list \<Rightarrow> 'a list \<Rightarrow> nat \<times> nat \<times> nat \<times> nat \<Rightarrow> nat" where
  "matches a b r = sum_list (map (\<lambda>(i, j, k). k) (matching_blocks a b r))"

text \<open>
  Matching a sequence against itself: \<open>run a lo r\<close> is the number of elements that
  are not popular in a row up to position \<open>r\<close>, counted back no further than \<open>lo\<close>.
  It is the length the diagonal entry of \<open>j2len\<close> has in row \<open>r\<close>, and it bounds
  every other entry of that row and of that column.
\<close>

fun run :: "'a list \<Rightarrow> nat \<Rightarrow> nat \<Rightarrow> nat" where
  "run a lo 0 = (if lo = 0 \<and> \<not> popular a (a ! 0) then 1 else 0)"
| "run a lo (Suc r) =
     (if Suc r < lo \<or> popular a (a ! Suc r) then 0
      else if Suc r = lo then 1 else run a lo r + 1)"

definition row_bound :: "'a list \<Rightarrow> nat \<Rightarrow> nat \<Rightarrow> nat" where
  "row_bound a lo n = (if n \<le> lo then 0 else run a lo (n - 1))"

definition jd_ok :: "'a list \<Rightarrow> nat \<Rightarrow> nat \<Rightarrow> (nat \<rightharpoonup> nat) \<Rightarrow> bool" where
  "jd_ok a lo n j2len =
     (\<forall>j v. j2len j = Some v \<longrightarrow> lo \<le> j \<and> v \<le> run a lo j \<and> v \<le> row_bound a lo n)"

definition diag_entry :: "'a list \<Rightarrow> nat \<Rightarrow> nat \<Rightarrow> (nat \<rightharpoonup> nat) \<Rightarrow> bool" where
  "diag_entry a lo r j2len =
     (j2len r = (if popular a (a ! r) then None else Some (run a lo r)))"

definition bd_ok :: "'a list \<Rightarrow> nat \<Rightarrow> nat \<Rightarrow> nat \<times> nat \<times> nat \<Rightarrow> bool" where
  "bd_ok a lo n m =
     (case m of (besti, bestj, bestsize) \<Rightarrow>
        besti = bestj \<and> (\<forall>r. lo \<le> r \<and> r < n \<longrightarrow> run a lo r \<le> bestsize))"

section \<open>Properties of the normalizer\<close>

lemma of_char_slash: "(of_char CHR ''/'' :: nat) = 47"
  by simp

lemma lower_char_slash: "lower_char CHR ''/'' = CHR ''/''"
  by (simp add: lower_char_def)

lemma of_char_lower_char:
  "(of_char (lower_char c) :: nat) =
     (if (65 \<le> (of_char c :: nat) \<and> (of_char c :: nat) \<le> 90)
         \<or> (192 \<le> (of_char c :: nat) \<and> (of_char c :: nat) \<le> 222 \<and> (of_char c :: nat) \<noteq> 215)
      then of_char c + 32 else of_char c)"
  by (auto simp add: lower_char_def Let_def of_char_of)

lemma lower_char_idem: "lower_char (lower_char c) = lower_char c"
proof (rule of_char_eqI [where ?'a = nat])
  show "(of_char (lower_char (lower_char c)) :: nat) = of_char (lower_char c)"
    by (simp only: of_char_lower_char [of "lower_char c"])
       (auto simp add: of_char_lower_char)
qed

lemma lower_idem: "lower (lower s) = lower s"
  by (simp add: lower_def lower_char_idem)




section \<open>Properties of the matcher\<close>

lemma Max_image_Cons:
  fixes f :: "'a \<Rightarrow> rat"
  shows "Max (f ` set (c # C)) = (if C = [] then f c else max (f c) (Max (f ` set C)))"
proof (cases "C = []")
  case True
  then show ?thesis by simp
next
  case False
  then have "Max (insert (f c) (f ` set C)) = max (f c) (Max (f ` set C))"
    by (intro Max_insert) auto
  then show ?thesis using False by simp
qed

lemma Max_image_less_iff:
  fixes f :: "'a \<Rightarrow> rat"
  assumes "C \<noteq> []"
  shows "b < Max (f ` set C) \<longleftrightarrow> (\<exists>c\<in>set C. b < f c)"
  using assms by (simp add: Max_gr_iff)

lemma scan_old_urls_result:
  "scan_old_urls sim nn C (bm, bs) =
     (if \<exists>c\<in>set C. bs < sim nn (normalize_url c)
      then (find (\<lambda>c. sim nn (normalize_url c) = Max ((\<lambda>c. sim nn (normalize_url c)) ` set C)) C,
            Max ((\<lambda>c. sim nn (normalize_url c)) ` set C))
      else (bm, bs))"
proof (induction C arbitrary: bm bs)
  case Nil
  show ?case by simp
next
  case (Cons c C)
  let ?f = "\<lambda>c. sim nn (normalize_url c)"
  let ?M' = "Max (?f ` set C)"
  let ?M = "Max (?f ` set (c # C))"
  show ?case
  proof (cases "bs < ?f c")
    case True
    note gt = True
    show ?thesis
    proof (cases "\<exists>c'\<in>set C. ?f c < ?f c'")
      case True
      then have ne: "C \<noteq> []" by auto
      from True have "?f c < ?M'" using Max_image_less_iff [OF ne, of "?f c" ?f] by simp
      then have "?M = ?M'" and "?f c \<noteq> ?M"
        using ne by (simp_all add: Max_image_Cons)
      then show ?thesis using gt True Cons.IH [of "Some c" "?f c"] by (simp add: Let_def)
    next
      case False
      then have le': "\<forall>x\<in>?f ` set C. x \<le> ?f c"
        by (auto simp add: not_less)
      have "?M = ?f c"
      proof (cases "C = []")
        case True
        then show ?thesis by simp
      next
        case False
        then have "?M' \<le> ?f c" using le' by (intro Max.boundedI) auto
        then have "max (?f c) ?M' = ?f c" by (simp add: max_def)
        then show ?thesis using False by (simp only: Max_image_Cons if_False)
      qed
      then show ?thesis using gt False Cons.IH [of "Some c" "?f c"] by (simp add: Let_def)
    qed
  next
    case False
    note le = False
    show ?thesis
    proof (cases "\<exists>c'\<in>set C. bs < ?f c'")
      case True
      then have ne: "C \<noteq> []" by auto
      from True have "bs < ?M'" using Max_image_less_iff [OF ne, of bs ?f] by simp
      with le have "?f c < ?M'" by simp
      then have "?M = ?M'" and "?f c \<noteq> ?M"
        using ne by (simp_all add: Max_image_Cons)
      then show ?thesis using le True Cons.IH [of bm bs] by (simp add: Let_def)
    next
      case False
      then show ?thesis using le Cons.IH [of bm bs] by (simp add: Let_def)
    qed
  qed
qed

lemma find_best_match_result:
  "find_best_match sim q C =
     (if C \<noteq> [] \<and> 6 / 10 < Max ((\<lambda>c. sim (normalize_url q) (normalize_url c)) ` set C)
      then (find (\<lambda>c. sim (normalize_url q) (normalize_url c)
                        = Max ((\<lambda>c. sim (normalize_url q) (normalize_url c)) ` set C)) C,
            Max ((\<lambda>c. sim (normalize_url q) (normalize_url c)) ` set C))
      else (None, 0))"
proof (cases "C = []")
  case True
  then show ?thesis by (simp add: find_best_match_def)
next
  case False
  let ?f = "\<lambda>c. sim (normalize_url q) (normalize_url c)"
  have iff: "(\<exists>c\<in>set C. 0 < ?f c) \<longleftrightarrow> 0 < Max (?f ` set C)"
    using Max_image_less_iff [OF False, of 0 ?f] by simp
  show ?thesis
  proof (cases "0 < Max (?f ` set C)")
    case True
    then show ?thesis using False iff
      by (simp add: find_best_match_def scan_old_urls_result Let_def)
  next
    case False
    then have "\<not> 6 / 10 < Max (?f ` set C)" by simp
    then show ?thesis using False iff
      by (simp add: find_best_match_def scan_old_urls_result Let_def)
  qed
qed

lemma find_first_max:
  fixes f :: "'a \<Rightarrow> rat"
  assumes "C \<noteq> []"
  shows "\<exists>c. find (\<lambda>c. f c = Max (f ` set C)) C = Some c \<and> c \<in> set C \<and> f c = Max (f ` set C)"
proof -
  have "Max (f ` set C) \<in> f ` set C" using assms by (intro Max_in) auto
  then obtain c where "c \<in> set C" "f c = Max (f ` set C)" by auto
  then have "find (\<lambda>c. f c = Max (f ` set C)) C \<noteq> None" by (auto simp add: find_None_iff)
  then obtain d where d: "find (\<lambda>c. f c = Max (f ` set C)) C = Some d" by auto
  then show ?thesis by (auto simp add: find_Some_iff)
qed

lemma lower_char_eq_slash: "lower_char c = CHR ''/'' \<longleftrightarrow> c = CHR ''/''"
proof
  assume "lower_char c = CHR ''/''"
  then have "(of_char (lower_char c) :: nat) = 47" by simp
  then have "(of_char c :: nat) = 47"
    by (simp add: of_char_lower_char split: if_splits)
  then have "(of_char c :: nat) = of_char CHR ''/''" by simp
  then show "c = CHR ''/''" by (rule of_char_eqI)
next
  assume "c = CHR ''/''"
  then show "lower_char c = CHR ''/''" by (simp add: lower_char_slash)
qed

lemma startswith_slash_lower: "startswith_slash (lower u) = startswith_slash u"
  by (cases u) (simp_all add: startswith_slash_def lower_def lower_char_eq_slash)

lemma normalize_url_lower: "normalize_url (lower u) = normalize_url u"
  by (simp add: normalize_url_def startswith_slash_lower Let_def lower_idem)
     (simp add: lower_def lower_char_slash lower_char_idem)

lemma startswith_slash_ensure: "startswith_slash (ensure_slash u)"
  by (simp add: ensure_slash_def startswith_slash_def)

lemma normalize_url_ensure_slash: "normalize_url (ensure_slash u) = normalize_url u"
  by (simp add: normalize_url_def ensure_slash_def Let_def startswith_slash_def)


section \<open>Properties of the batch processor\<close>

lemma classify_urls_rows:
  "classify_urls sim old_urls batch (m, u) =
     (m @ matched_rows sim old_urls batch, u @ unmatched_rows sim old_urls batch)"
proof (induction batch arbitrary: m u)
  case Nil
  show ?case by (simp add: matched_rows_def unmatched_rows_def)
next
  case (Cons n batch)
  obtain mu sc where f: "find_best_match sim (ensure_slash n) old_urls = (mu, sc)"
    by (cases "find_best_match sim (ensure_slash n) old_urls") auto
  show ?case
  proof (cases mu)
    case None
    then have "matched_row sim old_urls n = None" using f by (simp add: matched_row_def)
    then show ?thesis using f None Cons.IH
      by (simp add: matched_rows_def unmatched_rows_def)
  next
    case (Some old)
    show ?thesis
    proof (cases "old = []")
      case True
      then have "matched_row sim old_urls n = None" using f Some by (simp add: matched_row_def)
      then show ?thesis using f Some True Cons.IH
        by (simp add: matched_rows_def unmatched_rows_def)
    next
      case False
      then have "matched_row sim old_urls n = Some [ensure_slash n, ensure_slash old]"
        using f Some by (simp add: matched_row_def)
      then show ?thesis using f Some False Cons.IH
        by (simp add: matched_rows_def unmatched_rows_def)
    qed
  qed
qed

lemma length_rows:
  "length (matched_rows sim old_urls batch) + length (unmatched_rows sim old_urls batch) = length batch"
proof (induction batch)
  case Nil
  show ?case by (simp add: matched_rows_def unmatched_rows_def)
next
  case (Cons n batch)
  then show ?case
    by (cases "matched_row sim old_urls n")
       (simp_all add: matched_rows_def unmatched_rows_def)
qed

lemma process_batch_counts:
  "fst (process_batch sim batch old_urls batch_number output_dir fs) =
     (length (matched_rows sim old_urls batch), length (unmatched_rows sim old_urls batch))"
  by (simp add: process_batch_def classify_urls_rows [of _ _ _ "[]" "[]", simplified] Let_def)







section \<open>Properties of the orchestrator\<close>











section \<open>Properties of the sequence matcher\<close>

lemma matches_unfold:
  "matches a b (alo, ahi, blo, bhi) =
     (let x = find_longest_match a b alo ahi blo bhi;
          i = fst x; j = fst (snd x); k = snd (snd x)
      in if k \<noteq> 0
         then (if alo < i \<and> blo < j then matches a b (alo, i, blo, j) else 0)
              + k
              + (if i + k < ahi \<and> j + k < bhi then matches a b (i + k, ahi, j + k, bhi) else 0)
         else 0)"
  unfolding matches_def
  by (subst matching_blocks.simps) (auto simp add: Let_def split_beta)

lemma matches_le:
  "matches a b (alo, ahi, blo, bhi) \<le> ahi - alo \<and> matches a b (alo, ahi, blo, bhi) \<le> bhi - blo"
proof (induction a b "(alo, ahi, blo, bhi)" arbitrary: alo ahi blo bhi rule: matching_blocks.induct)
  case (1 a b alo ahi blo bhi)
  obtain i j k where x: "find_longest_match a b alo ahi blo bhi = (i, j, k)"
    by (cases "find_longest_match a b alo ahi blo bhi") auto
  show ?case
  proof (cases "k = 0")
    case True
    then show ?thesis using x by (subst (1 2) matches_unfold) simp
  next
    case False
    then have ok: "alo \<le> i" "i + k \<le> ahi" "blo \<le> j" "j + k \<le> bhi"
      using find_longest_match_ok [OF x] by (simp_all add: block_ok_def)
    have l: "alo < i \<and> blo < j \<Longrightarrow>
        matches a b (alo, i, blo, j) \<le> i - alo \<and> matches a b (alo, i, blo, j) \<le> j - blo"
      using "1.hyps"(1) [of "(i, j, k)" i j k] x False by simp
    have r: "i + k < ahi \<and> j + k < bhi \<Longrightarrow>
        matches a b (i + k, ahi, j + k, bhi) \<le> ahi - (i + k)
        \<and> matches a b (i + k, ahi, j + k, bhi) \<le> bhi - (j + k)"
      using "1.hyps"(2) [of "(i, j, k)" i j k] x False by simp
    show ?thesis
      using x False ok l r by (subst (1 2) matches_unfold) (auto simp add: Let_def)
  qed
qed

lemma ratio_matches:
  "ratio a b = (if length a + length b \<noteq> 0
                then 2 * of_nat (matches a b (0, length a, 0, length b)) / of_nat (length a + length b)
                else 1)"
  by (simp add: ratio_def matches_def Let_def)

lemma ratio_le_1: "ratio a b \<le> 1"
proof (cases "length a + length b = 0")
  case True
  then show ?thesis by (simp add: ratio_matches)
next
  case False
  let ?M = "matches a b (0, length a, 0, length b)"
  have "?M \<le> length a" "?M \<le> length b" using matches_le [of a b 0 "length a" 0 "length b"] by simp_all
  then have "2 * ?M \<le> length a + length b" by simp
  then have "(of_nat (2 * ?M) :: rat) \<le> of_nat (length a + length b)"
    by (simp only: of_nat_le_iff)
  then have "2 * (of_nat ?M :: rat) \<le> of_nat (length a + length b)" by simp
  moreover have "0 < length a + length b" using False by simp
  then have "0 < (of_nat (length a + length b) :: rat)" by (simp only: of_nat_0_less_iff)
  ultimately have "2 * (of_nat ?M :: rat) / of_nat (length a + length b) \<le> 1"
    by (simp only: pos_divide_le_eq mult_1)
  then show ?thesis using False by (simp only: ratio_matches if_True not_False_eq_True)
qed

lemma ratio_ge_0: "0 \<le> ratio a b"
  by (simp add: ratio_matches)

lemma matches_full:
  "matches a b (alo, ahi, blo, bhi) = ahi - alo \<Longrightarrow> ahi - alo = bhi - blo \<Longrightarrow> alo \<le> ahi \<Longrightarrow> blo \<le> bhi
   \<Longrightarrow> \<forall>t<ahi - alo. a ! (alo + t) = b ! (blo + t)"
proof (induction a b "(alo, ahi, blo, bhi)" arbitrary: alo ahi blo bhi rule: matching_blocks.induct)
  case (1 a b alo ahi blo bhi)
  obtain i j k where x: "find_longest_match a b alo ahi blo bhi = (i, j, k)"
    by (cases "find_longest_match a b alo ahi blo bhi") auto
  show ?case
  proof (cases "k = 0")
    case True
    then have "matches a b (alo, ahi, blo, bhi) = 0"
      using x by (subst matches_unfold) simp
    then show ?thesis using "1.prems" by simp
  next
    case False
    then have ok: "alo \<le> i" "i + k \<le> ahi" "blo \<le> j" "j + k \<le> bhi"
      "\<forall>t<k. a ! (i + t) = b ! (j + t)"
      using find_longest_match_ok [OF x] by (simp_all add: block_ok_def)
    define L where "L = (if alo < i \<and> blo < j then matches a b (alo, i, blo, j) else 0)"
    define R where "R = (if i + k < ahi \<and> j + k < bhi then matches a b (i + k, ahi, j + k, bhi) else 0)"
    have tot: "matches a b (alo, ahi, blo, bhi) = L + k + R"
      using x False by (subst matches_unfold) (simp add: Let_def L_def R_def)
    have Lb: "L \<le> i - alo" "L \<le> j - blo"
      using matches_le [of a b alo i blo j] by (simp_all add: L_def)
    have Rb: "R \<le> ahi - (i + k)" "R \<le> bhi - (j + k)"
      using matches_le [of a b "i + k" ahi "j + k" bhi] by (simp_all add: R_def)
    have eqs: "L = i - alo" "L = j - blo" "R = ahi - (i + k)" "R = bhi - (j + k)"
      using tot "1.prems" Lb Rb ok by arith+
    have left: "\<forall>t<i - alo. a ! (alo + t) = b ! (blo + t)"
    proof (cases "alo < i \<and> blo < j")
      case True
      then have "matches a b (alo, i, blo, j) = i - alo" "i - alo = j - blo"
        using eqs by (simp_all add: L_def)
      then show ?thesis
        using "1.hyps"(1) [of "(i, j, k)" i j k] x False True by simp
    next
      case F: False
      then have "L = 0" by (auto simp add: L_def)
      then have "i - alo = 0" using eqs by simp
      then show ?thesis by simp
    qed
    have right: "\<forall>t<ahi - (i + k). a ! (i + k + t) = b ! (j + k + t)"
    proof (cases "i + k < ahi \<and> j + k < bhi")
      case True
      then have "matches a b (i + k, ahi, j + k, bhi) = ahi - (i + k)" "ahi - (i + k) = bhi - (j + k)"
        using eqs by (simp_all add: R_def)
      then show ?thesis
        using "1.hyps"(2) [of "(i, j, k)" i j k] x False True by simp
    next
      case F: False
      then have "R = 0" by (auto simp add: R_def)
      then have "ahi - (i + k) = 0" using eqs by simp
      then show ?thesis by simp
    qed
    have off: "i - alo = j - blo" using eqs by simp
    show ?thesis
    proof (intro allI impI)
      fix t assume t: "t < ahi - alo"
      consider "t < i - alo" | "i - alo \<le> t" "t < i - alo + k" | "i - alo + k \<le> t" by linarith
      then show "a ! (alo + t) = b ! (blo + t)"
      proof cases
        case 1
        then show ?thesis using left by simp
      next
        case 2
        then have "t - (i - alo) < k" by simp
        then have h: "a ! (i + (t - (i - alo))) = b ! (j + (t - (i - alo)))" using ok(5) by blast
        have e1: "i + (t - (i - alo)) = alo + t" using 2 ok by arith
        have e2: "j + (t - (i - alo)) = blo + t" using 2 ok off by arith
        from h show ?thesis unfolding e1 e2 .
      next
        case 3
        then have "t - (i - alo + k) < ahi - (i + k)" using t ok by simp
        then have h: "a ! (i + k + (t - (i - alo + k))) = b ! (j + k + (t - (i - alo + k)))"
          using right by blast
        have e1: "i + k + (t - (i - alo + k)) = alo + t" using 3 ok by arith
        have e2: "j + k + (t - (i - alo + k)) = blo + t" using 3 ok off by arith
        from h show ?thesis unfolding e1 e2 .
      qed
    qed
  qed
qed

lemma ratio_eq_1_imp:
  assumes "ratio a b = 1" shows "a = b"
proof (cases "length a + length b = 0")
  case True
  then show ?thesis by simp
next
  case False
  let ?M = "matches a b (0, length a, 0, length b)"
  have le: "?M \<le> length a" "?M \<le> length b"
    using matches_le [of a b 0 "length a" 0 "length b"] by simp_all
  have "2 * (of_nat ?M :: rat) = of_nat (length a + length b)"
    using assms False by (simp add: ratio_matches)
  then have "(of_nat (2 * ?M) :: rat) = of_nat (length a + length b)" by simp
  then have "2 * ?M = length a + length b" by (simp only: of_nat_eq_iff)
  then have eq: "?M = length a" "length a = length b" using le by simp_all
  have "\<forall>t<length a - 0. a ! (0 + t) = b ! (0 + t)"
    using matches_full [of a b 0 "length a" 0 "length b"] eq by simp
  then show ?thesis using eq(2) by (intro nth_equalityI) simp_all
qed

lemma run_popular: "popular a (a ! r) \<Longrightarrow> run a lo r = 0"
  by (cases r) simp_all

lemma run_first: "\<not> popular a (a ! lo) \<Longrightarrow> run a lo lo = 1"
  by (cases lo) simp_all

lemma run_next: "\<not> popular a (a ! r) \<Longrightarrow> lo < r \<Longrightarrow> run a lo r = run a lo (r - 1) + 1"
  by (cases r) simp_all

lemma row_step_diag:
  assumes prev: "jd_ok a lo i j2len"
    and d: "lo < i \<longrightarrow> diag_entry a lo (i - 1) j2len"
    and i: "lo \<le> i" and j: "lo \<le> j" and eq: "a ! j = a ! i" and np: "\<not> popular a (a ! i)"
    and k: "k = (if j = 0 then 0 else case j2len (j - 1) of None \<Rightarrow> 0 | Some v \<Rightarrow> v) + 1"
  shows "k \<le> run a lo j \<and> k \<le> run a lo i \<and> (j = i \<longrightarrow> k = run a lo i)"
proof -
  have npj: "\<not> popular a (a ! j)" using np eq by simp
  have kj: "k \<le> run a lo j"
  proof (cases "j = 0 \<or> j2len (j - 1) = None")
    case True
    then have "k = 1" using k by auto
    moreover have "1 \<le> run a lo j"
      using run_first [of a lo] run_next [OF npj, of lo] npj j by (cases "j = lo") auto
    ultimately show ?thesis by simp
  next
    case False
    then obtain v where v: "j2len (j - 1) = Some v" "j \<noteq> 0" by auto
    then have "lo \<le> j - 1" "v \<le> run a lo (j - 1)" using prev by (auto simp add: jd_ok_def)
    moreover have "k = v + 1" using k v by simp
    ultimately show ?thesis using run_next [OF npj, of lo] v(2) by simp
  qed
  have ki: "k \<le> run a lo i"
  proof (cases "j = 0 \<or> j2len (j - 1) = None")
    case True
    then have "k = 1" using k by auto
    moreover have "1 \<le> run a lo i"
      using run_first [of a lo] run_next [OF np, of lo] np i by (cases "i = lo") auto
    ultimately show ?thesis by simp
  next
    case False
    then obtain v where v: "j2len (j - 1) = Some v" "j \<noteq> 0" by auto
    then have vb: "v \<le> row_bound a lo i" using prev by (auto simp add: jd_ok_def)
    have kv: "k = v + 1" using k v by simp
    show ?thesis
    proof (cases "i = lo")
      case True
      then have "v = 0" using vb by (simp add: row_bound_def)
      then show ?thesis using kv True run_first [of a lo] np by simp
    next
      case False
      then have "lo < i" using i by simp
      then show ?thesis using vb kv run_next [OF np, of lo] by (simp add: row_bound_def)
    qed
  qed
  have kd: "k = run a lo i" if ji: "j = i"
  proof (cases "i = lo")
    case True
    have "k \<le> 1" using ki True run_first [of a lo] np by simp
    moreover have "1 \<le> k" using k by simp
    ultimately show ?thesis using True run_first [of a lo] np by simp
  next
    case False
    then have lt: "lo < i" using i by simp
    then have de: "j2len (i - 1) = (if popular a (a ! (i - 1)) then None else Some (run a lo (i - 1)))"
      using d by (simp add: diag_entry_def)
    have i0: "j \<noteq> 0" using ji lt by simp
    show ?thesis
    proof (cases "popular a (a ! (i - 1))")
      case True
      then have "k = 1" using k de ji i0 by simp
      then show ?thesis using run_next [OF np lt] run_popular [OF True, of lo] by simp
    next
      case False
      then have "k = run a lo (i - 1) + 1" using k de ji i0 by simp
      then show ?thesis using run_next [OF np lt] by simp
    qed
  qed
  from kj ki kd show ?thesis by blast
qed

lemma row_loop_diag:
  assumes prev: "jd_ok a lo i j2len"
    and d: "lo < i \<longrightarrow> diag_entry a lo (i - 1) j2len"
    and i: "lo \<le> i" "i < hi" and np: "\<not> popular a (a ! i)"
    and js: "sorted_wrt (<) js" "\<forall>j\<in>set js. a ! j = a ! i"
    and acc: "jd_ok a lo (i + 1) newj2len"
    and p3: "i \<in> set js \<or> (run a lo i \<le> bestsize \<and> newj2len i = Some (run a lo i))"
    and best: "bd_ok a lo i (besti, bestj, bestsize)"
    and res: "row_loop i lo hi j2len js (newj2len, besti, bestj, bestsize) = (n', m')"
  shows "jd_ok a lo (i + 1) n' \<and> diag_entry a lo i n' \<and> bd_ok a lo (i + 1) m'"
  using js acc p3 best res
proof (induction js arbitrary: newj2len besti bestj bestsize)
  case Nil
  then have r: "n' = newj2len" "m' = (besti, bestj, bestsize)" by simp_all
  have "run a lo i \<le> bestsize" "newj2len i = Some (run a lo i)" using Nil.prems(4) by simp_all
  moreover have "\<forall>r. lo \<le> r \<and> r < i + 1 \<longrightarrow> run a lo r \<le> bestsize"
  proof (intro allI impI)
    fix r assume "lo \<le> r \<and> r < i + 1"
    then have "r < i \<or> r = i" by auto
    then show "run a lo r \<le> bestsize"
      using Nil.prems(5) \<open>lo \<le> r \<and> r < i + 1\<close> \<open>run a lo i \<le> bestsize\<close>
      by (auto simp add: bd_ok_def)
  qed
  ultimately show ?case using Nil.prems(3,5) np by (simp add: r diag_entry_def bd_ok_def)
next
  case (Cons j js)
  have sorted': "sorted_wrt (<) js" and lt_all: "\<forall>j'\<in>set js. j < j'"
    using Cons.prems(1) by simp_all
  have eqs': "\<forall>j\<in>set js. a ! j = a ! i" and eq: "a ! j = a ! i"
    using Cons.prems(2) by simp_all
  show ?case
  proof (cases "j < lo")
    case True
    then have res': "row_loop i lo hi j2len js (newj2len, besti, bestj, bestsize) = (n', m')"
      using Cons.prems(6) by simp
    have "j \<noteq> i" using True i by simp
    then have p3': "i \<in> set js \<or> (run a lo i \<le> bestsize \<and> newj2len i = Some (run a lo i))"
      using Cons.prems(4) by auto
    show ?thesis by (rule Cons.IH [OF sorted' eqs' Cons.prems(3) p3' Cons.prems(5) res'])
  next
    case False
    note ge = False
    show ?thesis
    proof (cases "j \<ge> hi")
      case True
      then have r: "n' = newj2len" "m' = (besti, bestj, bestsize)"
        using Cons.prems(6) ge by simp_all
      have "i \<notin> set (j # js)" using True i lt_all by auto
      then have p3': "i \<in> set [] \<or> (run a lo i \<le> bestsize \<and> newj2len i = Some (run a lo i))"
        using Cons.prems(4) by blast
      have res': "row_loop i lo hi j2len [] (newj2len, besti, bestj, bestsize) = (n', m')"
        using r by simp
      have "sorted_wrt (<) ([] :: nat list)" "\<forall>j\<in>set []. a ! j = a ! i" by simp_all
      then show ?thesis
        using Cons.prems(3,5) p3' r np
        by (auto simp add: diag_entry_def bd_ok_def less_Suc_eq)
    next
      case False
      define k where "k = (if j = 0 then 0 else case j2len (j - 1) of None \<Rightarrow> 0 | Some v \<Rightarrow> v) + 1"
      have jlo: "lo \<le> j" using ge by simp
      have st: "k \<le> run a lo j \<and> k \<le> run a lo i \<and> (j = i \<longrightarrow> k = run a lo i)"
        by (rule row_step_diag [OF prev d i(1) jlo eq np k_def])
      have rb: "row_bound a lo (i + 1) = run a lo i" using i by (simp add: row_bound_def)
      have acc': "jd_ok a lo (i + 1) (newj2len(j \<mapsto> k))"
        using Cons.prems(3) st jlo rb by (auto simp add: jd_ok_def)
      have bsz: "j \<noteq> i \<Longrightarrow> k \<le> bestsize"
      proof -
        assume ne: "j \<noteq> i"
        show "k \<le> bestsize"
        proof (cases "j < i")
          case True
          then have "run a lo j \<le> bestsize" using Cons.prems(5) jlo by (simp add: bd_ok_def)
          then show ?thesis using st by simp
        next
          case False
          then have "i < j" using ne by simp
          then have "i \<notin> set (j # js)" using lt_all by auto
          then have "run a lo i \<le> bestsize" using Cons.prems(4) by blast
          then show ?thesis using st by simp
        qed
      qed
      show ?thesis
      proof (cases "k > bestsize")
        case True
        then have ji: "j = i" using bsz by force
        then have ki: "k = run a lo i" using st by simp
        have res': "row_loop i lo hi j2len js (newj2len(j \<mapsto> k), i + 1 - k, j + 1 - k, k) = (n', m')"
          using Cons.prems(6) ge False True by (simp add: k_def Let_def)
        have p3': "i \<in> set js \<or> (run a lo i \<le> k \<and> (newj2len(j \<mapsto> k)) i = Some (run a lo i))"
          using ji ki by simp
        have best': "bd_ok a lo i (i + 1 - k, j + 1 - k, k)"
          using Cons.prems(5) True ji by (auto simp add: bd_ok_def)
        show ?thesis by (rule Cons.IH [OF sorted' eqs' acc' p3' best' res'])
      next
        case F: False
        have res': "row_loop i lo hi j2len js (newj2len(j \<mapsto> k), besti, bestj, bestsize) = (n', m')"
          using Cons.prems(6) ge False F by (simp add: k_def Let_def)
        have p3': "i \<in> set js \<or> (run a lo i \<le> bestsize \<and> (newj2len(j \<mapsto> k)) i = Some (run a lo i))"
        proof (cases "j = i")
          case True
          then show ?thesis using st F by simp
        next
          case False
          then show ?thesis using Cons.prems(4) by auto
        qed
        show ?thesis by (rule Cons.IH [OF sorted' eqs' acc' p3' Cons.prems(5) res'])
      qed
    qed
  qed
qed


lemma jd_ok_empty: "jd_ok a lo n Map.empty"
  by (simp add: jd_ok_def)

lemma sorted_b2j: "sorted_wrt (<) (b2j b elt)"
  by (simp add: b2j_def indices_of_def sorted_wrt_filter)

lemma mem_b2j: "i < length b \<Longrightarrow> \<not> popular b (b ! i) \<Longrightarrow> i \<in> set (b2j b (b ! i))"
  by (simp add: b2j_def indices_of_def)

lemma rows_loop_diag:
  assumes "jd_ok a lo i0 j2len" and "lo < i0 \<longrightarrow> diag_entry a lo (i0 - 1) j2len"
    and "lo \<le> i0" and "hi \<le> length a"
    and "bd_ok a lo i0 m"
    and "rows_loop a a lo hi [i0..<hi] (j2len, m) = (n', m')"
  shows "fst m' = fst (snd m')"
  using assms
proof (induction "hi - i0" arbitrary: i0 j2len m)
  case 0
  then have "m' = m" by simp
  then show ?case using "0.prems"(5) by (auto simp add: bd_ok_def)
next
  case (Suc d)
  then have lt: "i0 < hi" by simp
  obtain besti bestj bestsize where m: "m = (besti, bestj, bestsize)" by (cases m) auto
  define n1 where "n1 = fst (row_loop i0 lo hi j2len (b2j a (a ! i0)) (Map.empty, besti, bestj, bestsize))"
  define m1 where "m1 = snd (row_loop i0 lo hi j2len (b2j a (a ! i0)) (Map.empty, besti, bestj, bestsize))"
  have r1: "row_loop i0 lo hi j2len (b2j a (a ! i0)) (Map.empty, besti, bestj, bestsize) = (n1, m1)"
    by (simp add: n1_def m1_def)
  have rest: "rows_loop a a lo hi [Suc i0..<hi] (n1, m1) = (n', m')"
    using Suc.prems(6) lt r1 m by (simp add: upt_conv_Cons)
  have ok1: "jd_ok a lo (i0 + 1) n1 \<and> diag_entry a lo i0 n1 \<and> bd_ok a lo (i0 + 1) m1"
  proof (cases "popular a (a ! i0)")
    case True
    then have "b2j a (a ! i0) = []" by (simp add: b2j_def)
    then have e: "n1 = Map.empty" "m1 = (besti, bestj, bestsize)" using r1 by simp_all
    have "\<forall>r. lo \<le> r \<and> r < i0 + 1 \<longrightarrow> run a lo r \<le> bestsize"
    proof (intro allI impI)
      fix r assume r: "lo \<le> r \<and> r < i0 + 1"
      then have "r < i0 \<or> r = i0" by auto
      then show "run a lo r \<le> bestsize"
        using Suc.prems(5) r run_popular [OF True, of lo] by (auto simp add: bd_ok_def m)
    qed
    then show ?thesis
      using True Suc.prems(5) by (simp add: e jd_ok_empty diag_entry_def bd_ok_def m)
  next
    case False
    have i0len: "i0 < length a" using lt Suc.prems(4) by simp
    have js2: "\<forall>j\<in>set (b2j a (a ! i0)). a ! j = a ! i0" by (simp add: b2j_nth)
    have p3: "i0 \<in> set (b2j a (a ! i0))
        \<or> (run a lo i0 \<le> bestsize \<and> Map.empty i0 = Some (run a lo i0))"
      using mem_b2j [OF i0len False] by simp
    show ?thesis
      by (rule row_loop_diag [OF Suc.prems(1) Suc.prems(2) Suc.prems(3) lt False sorted_b2j js2
            jd_ok_empty p3 Suc.prems(5) [unfolded m] r1])
  qed
  have d': "lo < Suc i0 \<longrightarrow> diag_entry a lo (Suc i0 - 1) n1" using ok1 by simp
  show ?case
    using Suc.hyps(1) [of "Suc i0" n1 m1] Suc.hyps(2) ok1 d' Suc.prems(3,4) rest by simp
qed

lemma extend_left_same:
  "lo \<le> x \<Longrightarrow> extend_left a a lo lo (x, x, k) = (lo, lo, k + (x - lo))"
proof (induction "x - lo" arbitrary: x k)
  case 0
  then show ?case by (subst extend_left.simps) simp
next
  case (Suc d)
  then have lt: "lo < x" by simp
  have "extend_left a a lo lo (x - 1, x - 1, k + 1) = (lo, lo, k + 1 + (x - 1 - lo))"
    using Suc by (intro Suc.hyps(1)) simp_all
  moreover have "k + 1 + (x - 1 - lo) = k + (x - lo)" using lt by simp
  ultimately show ?case using lt by (subst extend_left.simps) simp
qed

lemma extend_right_same:
  "lo + k \<le> hi \<Longrightarrow> extend_right a a hi hi (lo, lo, k) = (lo, lo, hi - lo)"
proof (induction "hi - (lo + k)" arbitrary: k)
  case 0
  then show ?case by (subst extend_right.simps) simp
next
  case (Suc d)
  then have lt: "lo + k < hi" by simp
  have "extend_right a a hi hi (lo, lo, k + 1) = (lo, lo, hi - lo)"
    using Suc by (intro Suc.hyps(1)) simp_all
  then show ?case using lt by (subst extend_right.simps) simp
qed

lemma find_longest_match_same:
  assumes "lo \<le> hi" and "hi \<le> length a"
  shows "find_longest_match a a lo hi lo hi = (lo, lo, hi - lo)"
proof -
  define n' where "n' = fst (rows_loop a a lo hi [lo..<hi] (Map.empty, lo, lo, 0))"
  define m' where "m' = snd (rows_loop a a lo hi [lo..<hi] (Map.empty, lo, lo, 0))"
  have r: "rows_loop a a lo hi [lo..<hi] (Map.empty, lo, lo, 0) = (n', m')"
    by (simp add: n'_def m'_def)
  obtain x y k where m': "m' = (x, y, k)" by (cases m') auto
  have "fst m' = fst (snd m')"
    by (rule rows_loop_diag [OF jd_ok_empty _ _ assms(2) _ r]) (simp_all add: bd_ok_def)
  then have xy: "y = x" using m' by simp
  have "best_ok a a lo (max lo hi) lo hi m'"
    using rows_loop_ok [OF j2len_ok_empty _ _ r] by (simp add: best_ok_def)
  then have b: "lo \<le> x" "x + k \<le> hi"
    using m' assms(1) by (auto simp add: best_ok_def block_ok_def max_def)
  have "find_longest_match a a lo hi lo hi = extend_right a a hi hi (extend_left a a lo lo (x, x, k))"
    using r m' xy by (simp add: find_longest_match_def)
  also have "\<dots> = extend_right a a hi hi (lo, lo, k + (x - lo))"
    using b by (simp add: extend_left_same)
  also have "\<dots> = (lo, lo, hi - lo)"
    using b by (intro extend_right_same) simp
  finally show ?thesis .
qed

lemma ratio_same: "ratio a a = 1"
proof (cases "a = []")
  case True
  then show ?thesis by (simp add: ratio_def)
next
  case False
  have "find_longest_match a a 0 (length a) 0 (length a) = (0, 0, length a)"
    using find_longest_match_same [of 0 "length a" a] by simp
  then have "matching_blocks a a (0, length a, 0, length a) = [(0, 0, length a)]"
    using False by (subst matching_blocks.simps) simp
  then show ?thesis using False by (simp add: ratio_def)
qed

section \<open>The specified properties\<close>

text \<open>
  The program calls the matcher with the library's score: it is
  \<open>find_best_match ratio\<close>. Where a property holds whatever the score, it is stated
  for every \<open>sim\<close>; the examples run it with \<open>ratio\<close>.
\<close>

lemma ratio_shoe_shoes: "ratio (normalize_url ''shoe'') (normalize_url ''/shoes'') = 10 / 11"
  by code_simp

lemma ratio_shoe_about: "ratio (normalize_url ''shoe'') (normalize_url ''/about'') = 4 / 11"
  by code_simp

lemma ratio_contact_shoes: "ratio (normalize_url ''contact'') (normalize_url ''/shoes'') = 2 / 7"
  by code_simp

lemma ratio_contact_about: "ratio (normalize_url ''contact'') (normalize_url ''/about'') = 3 / 7"
  by code_simp

lemma max_shoe:
  "Max ((\<lambda>c. ratio (normalize_url ''shoe'') (normalize_url c)) ` set [''/shoes'', ''/about'']) = 10 / 11"
  by (simp add: ratio_shoe_shoes ratio_shoe_about)

lemma max_contact:
  "Max ((\<lambda>c. ratio (normalize_url ''contact'') (normalize_url c)) ` set [''/shoes'', ''/about'']) = 3 / 7"
  by (simp add: ratio_contact_shoes ratio_contact_about)

text \<open>
  C1. For every query URL \<open>q\<close> and every list \<open>C\<close> of candidate old URLs: if \<open>C\<close> is not
  empty and the maximum similarity score over \<open>C\<close> is strictly greater than 0.6, the
  matcher returns a candidate of \<open>C\<close>, in its original form, that reaches the maximum,
  together with the maximum; otherwise it returns no match and the score 0. For the
  empty list it returns no match.
\<close>

theorem find_best_match_threshold:
  "(C \<noteq> [] \<and> 6 / 10 < Max ((\<lambda>c. sim (normalize_url q) (normalize_url c)) ` set C)
      \<longrightarrow> (\<exists>c\<in>set C. find_best_match sim q C
                      = (Some c, Max ((\<lambda>c. sim (normalize_url q) (normalize_url c)) ` set C))
                    \<and> sim (normalize_url q) (normalize_url c)
                      = Max ((\<lambda>c. sim (normalize_url q) (normalize_url c)) ` set C)))
   \<and> (\<not> (C \<noteq> [] \<and> 6 / 10 < Max ((\<lambda>c. sim (normalize_url q) (normalize_url c)) ` set C))
      \<longrightarrow> find_best_match sim q C = (None, 0))
   \<and> find_best_match sim q [] = (None, 0)"
proof (intro conjI impI)
  let ?f = "\<lambda>c. sim (normalize_url q) (normalize_url c)"
  assume h: "C \<noteq> [] \<and> 6 / 10 < Max (?f ` set C)"
  then obtain c where c: "find (\<lambda>c. ?f c = Max (?f ` set C)) C = Some c" "c \<in> set C"
      "?f c = Max (?f ` set C)"
    using find_first_max [of C ?f] by blast
  then show "\<exists>c\<in>set C. find_best_match sim q C = (Some c, Max (?f ` set C))
      \<and> ?f c = Max (?f ` set C)"
    using h by (auto simp add: find_best_match_result)
next
  assume "\<not> (C \<noteq> [] \<and> 6 / 10 < Max ((\<lambda>c. sim (normalize_url q) (normalize_url c)) ` set C))"
  then show "find_best_match sim q C = (None, 0)"
    by (simp add: find_best_match_result)
next
  show "find_best_match sim q [] = (None, 0)"
    by (simp add: find_best_match_result)
qed


theorem find_best_match_threshold_witness:
  "find_best_match ratio ''shoe'' [''/shoes'', ''/about''] = (Some ''/shoes'', 10 / 11)
   \<and> find_best_match ratio ''contact'' [''/shoes'', ''/about''] = (None, 0)"
proof -
  let ?C = "[''/shoes'', ''/about'']"
  have h1: "?C \<noteq> [] \<and> 6 / 10 < Max ((\<lambda>c. ratio (normalize_url ''shoe'') (normalize_url c)) ` set ?C)"
    unfolding max_shoe by simp
  have h2: "\<not> (?C \<noteq> [] \<and> 6 / 10 < Max ((\<lambda>c. ratio (normalize_url ''contact'') (normalize_url c)) ` set ?C))"
    unfolding max_contact by simp
  from find_best_match_threshold [of ?C ratio "''shoe''"] h1
  obtain c where c: "c \<in> set ?C"
      "find_best_match ratio ''shoe'' ?C
         = (Some c, Max ((\<lambda>c. ratio (normalize_url ''shoe'') (normalize_url c)) ` set ?C))"
      "ratio (normalize_url ''shoe'') (normalize_url c)
         = Max ((\<lambda>c. ratio (normalize_url ''shoe'') (normalize_url c)) ` set ?C)"
    by blast
  have c3: "ratio (normalize_url ''shoe'') (normalize_url c) = 10 / 11"
    using c(3) by (simp only: max_shoe)
  have "c = ''/shoes''"
    using c(1) c3 ratio_shoe_about by auto
  then have a: "find_best_match ratio ''shoe'' ?C = (Some ''/shoes'', 10 / 11)"
    using c(2) by (simp only: max_shoe)
  from find_best_match_threshold [of ?C ratio "''contact''"] h2
  have b: "find_best_match ratio ''contact'' ?C = (None, 0)" by blast
  from a b show ?thesis by blast
qed

text \<open>
  C3, as the claim states it, fails: the candidates \<open>b\<close> and \<open>c\<close> tie for the maximum
  score 1/2 against the query \<open>a\<close>, and the matcher returns neither, since the
  maximum does not exceed 0.6.
\<close>

theorem find_best_match_tie_below_threshold:
  "ratio (normalize_url ''a'') (normalize_url ''b'') = 1 / 2
   \<and> ratio (normalize_url ''a'') (normalize_url ''c'') = 1 / 2
   \<and> find_best_match ratio ''a'' [''b'', ''c''] = (None, 0)"
  by code_simp

text \<open>
  C3, amended. For every query URL \<open>q\<close> and every list \<open>C\<close> of candidates whose
  maximum similarity score is strictly greater than 0.6, the matcher returns the
  first candidate in the order of \<open>C\<close> that reaches the maximum: the candidate at a
  position \<open>i\<close> such that every candidate before \<open>i\<close> scores strictly less than the
  maximum. Candidates that tie with it later in the list are not returned.
\<close>

theorem find_best_match_first_max:
  assumes "C \<noteq> []"
    and "6 / 10 < Max ((\<lambda>c. sim (normalize_url q) (normalize_url c)) ` set C)"
  shows "\<exists>i<length C. fst (find_best_match sim q C) = Some (C ! i)
           \<and> sim (normalize_url q) (normalize_url (C ! i))
               = Max ((\<lambda>c. sim (normalize_url q) (normalize_url c)) ` set C)
           \<and> (\<forall>i'<i. sim (normalize_url q) (normalize_url (C ! i'))
                 < Max ((\<lambda>c. sim (normalize_url q) (normalize_url c)) ` set C))"
proof -
  let ?f = "\<lambda>c. sim (normalize_url q) (normalize_url c)"
  let ?M = "Max (?f ` set C)"
  obtain c where c: "find (\<lambda>c. ?f c = ?M) C = Some c"
    using find_first_max [OF assms(1), of ?f] by blast
  then obtain i where i: "i < length C" "?f (C ! i) = ?M" "c = C ! i" "\<forall>j<i. ?f (C ! j) \<noteq> ?M"
    by (auto simp add: find_Some_iff)
  have "\<forall>j<i. ?f (C ! j) < ?M"
  proof (intro allI impI)
    fix j assume j: "j < i"
    then have "C ! j \<in> set C" using i(1) by simp
    then have "?f (C ! j) \<le> ?M" by (intro Max_ge) auto
    then show "?f (C ! j) < ?M" using i(4) j by (simp add: order_less_le)
  qed
  moreover have "fst (find_best_match sim q C) = Some (C ! i)"
    using assms c i(3) by (simp add: find_best_match_result)
  ultimately show ?thesis using i(1,2) by blast
qed


lemma ratio_page_pag: "ratio (normalize_url ''/Page'') (normalize_url ''/pag'') = 8 / 9"
  by code_simp

lemma ratio_page_page: "ratio (normalize_url ''/Page'') (normalize_url ''page'') = 1"
  by code_simp

lemma ratio_page_PAGE: "ratio (normalize_url ''/Page'') (normalize_url ''/PAGE'') = 1"
  by code_simp

lemma max_page:
  "Max ((\<lambda>c. ratio (normalize_url ''/Page'') (normalize_url c)) ` set [''/pag'', ''page'', ''/PAGE'']) = 1"
  by (simp add: ratio_page_pag ratio_page_page ratio_page_PAGE)

theorem find_best_match_first_max_witness:
  "ratio (normalize_url ''/Page'') (normalize_url ''page'') = 1
   \<and> ratio (normalize_url ''/Page'') (normalize_url ''/PAGE'') = 1
   \<and> fst (find_best_match ratio ''/Page'' [''/pag'', ''page'', ''/PAGE'']) = Some ''page''"
proof -
  let ?C = "[''/pag'', ''page'', ''/PAGE'']"
  let ?f = "\<lambda>c. ratio (normalize_url ''/Page'') (normalize_url c)"
  have h1: "?C \<noteq> []" by simp
  have h2: "6 / 10 < Max (?f ` set ?C)" unfolding max_page by simp
  from find_best_match_first_max [of ?C ratio "''/Page''"] h1 h2
  obtain i where i: "i < length ?C" "fst (find_best_match ratio ''/Page'' ?C) = Some (?C ! i)"
      "?f (?C ! i) = Max (?f ` set ?C)" "\<forall>i'<i. ?f (?C ! i') < Max (?f ` set ?C)"
    by blast
  from i(3) have e: "?f (?C ! i) = 1" unfolding max_page .
  from i(4) have l: "\<forall>i'<i. ?f (?C ! i') < 1" unfolding max_page .
  have "i \<noteq> 0"
  proof
    assume "i = 0"
    then show False using e ratio_page_pag by simp
  qed
  moreover have "i < 2"
  proof (rule ccontr)
    assume "\<not> i < 2"
    then have "1 < i" by simp
    then have "?f (?C ! 1) < 1" using l by blast
    then show False using ratio_page_page by simp
  qed
  ultimately have "i = 1" by simp
  then have "fst (find_best_match ratio ''/Page'' ?C) = Some ''page''" using i(2) by simp
  then show ?thesis using ratio_page_page ratio_page_PAGE by blast
qed

text \<open>
  C10. For every query URL \<open>q\<close> and every list \<open>C\<close> of candidates: when the matcher
  returns a match \<open>best_match\<close> with a score, \<open>best_match\<close> is an element of \<open>C\<close> as it
  stands there, not normalized, and the score is the similarity of the normalized
  \<open>q\<close> and the normalized \<open>best_match\<close>.
\<close>

theorem find_best_match_sound:
  assumes "find_best_match sim q C = (Some best_match, score)"
  shows "best_match \<in> set C \<and> score = sim (normalize_url q) (normalize_url best_match)"
proof -
  let ?f = "\<lambda>c. sim (normalize_url q) (normalize_url c)"
  have cond: "C \<noteq> [] \<and> 6 / 10 < Max (?f ` set C)"
    using assms by (auto simp add: find_best_match_result split: if_splits)
  then have r: "find_best_match sim q C = (find (\<lambda>c. ?f c = Max (?f ` set C)) C, Max (?f ` set C))"
    by (simp add: find_best_match_result)
  have "find (\<lambda>c. ?f c = Max (?f ` set C)) C = fst (find_best_match sim q C)"
    by (simp only: r fst_conv)
  then have a: "find (\<lambda>c. ?f c = Max (?f ` set C)) C = Some best_match"
    by (simp only: assms fst_conv)
  have "Max (?f ` set C) = snd (find_best_match sim q C)"
    by (simp only: r snd_conv)
  then have b: "Max (?f ` set C) = score"
    by (simp only: assms snd_conv)
  from a have "best_match \<in> set C" "?f best_match = Max (?f ` set C)"
    by (auto simp add: find_Some_iff)
  with b show ?thesis by simp
qed


theorem find_best_match_sound_witness:
  "find_best_match ratio ''/Page'' [''/pag'', ''page'', ''/PAGE''] = (Some ''page'', 1)
   \<and> ''page'' \<in> set [''/pag'', ''page'', ''/PAGE'']
   \<and> (1 :: rat) = ratio (normalize_url ''/Page'') (normalize_url ''page'')"
proof -
  have h: "find_best_match ratio ''/Page'' [''/pag'', ''page'', ''/PAGE''] = (Some ''page'', 1)"
    by code_simp
  from find_best_match_sound [OF h] h show ?thesis by blast
qed

text \<open>
  C9. For every query URL \<open>q\<close> and every list \<open>C\<close> of candidates, the result of the
  matcher, candidate and score, is the same for every \<open>q'\<close> that normalizes as \<open>q\<close>
  does; so it is for \<open>q\<close> with its leading slash corrected, which is what
  \<open>process_batch\<close> hands to the matcher, and for \<open>q\<close> in lower case.
\<close>

theorem find_best_match_normalized_query:
  "(normalize_url q' = normalize_url q \<longrightarrow> find_best_match sim q' C = find_best_match sim q C)
   \<and> find_best_match sim (ensure_slash q) C = find_best_match sim q C
   \<and> find_best_match sim (lower q) C = find_best_match sim q C"
  by (simp add: find_best_match_def normalize_url_ensure_slash normalize_url_lower)

theorem find_best_match_normalized_query_witness:
  "normalize_url ''SHOE'' = normalize_url ''/shoe''
   \<and> find_best_match ratio ''SHOE'' [''/shoes'', ''/about'']
       = find_best_match ratio ''/shoe'' [''/shoes'', ''/about'']"
proof -
  have h: "normalize_url ''SHOE'' = normalize_url ''/shoe''" by code_simp
  from find_best_match_normalized_query [of "''SHOE''" "''/shoe''" ratio "[''/shoes'', ''/about'']"] h
  show ?thesis by blast
qed

text \<open>
  C4. For every list \<open>C\<close> of candidates and every query \<open>q\<close>: if some candidate has
  the same normalized form as \<open>q\<close>, that is, \<open>q\<close> is in \<open>C\<close> up to case and leading slash,
  then the matcher, run with the library's score, returns such a candidate, the
  first of them in \<open>C\<close>, with the score 1.
\<close>

theorem find_best_match_exact:
  assumes "\<exists>c\<in>set C. normalize_url c = normalize_url q"
  shows "\<exists>c\<in>set C. normalize_url c = normalize_url q
           \<and> find (\<lambda>c. normalize_url c = normalize_url q) C = Some c
           \<and> find_best_match ratio q C = (Some c, 1)"
proof -
  let ?f = "\<lambda>c. ratio (normalize_url q) (normalize_url c)"
  have one: "?f c = 1 \<longleftrightarrow> normalize_url c = normalize_url q" for c
    using ratio_eq_1_imp [of "normalize_url q" "normalize_url c"] ratio_same [of "normalize_url q"]
    by auto
  obtain c0 where c0: "c0 \<in> set C" "normalize_url c0 = normalize_url q" using assms by blast
  then have ne: "C \<noteq> []" by auto
  have "Max (?f ` set C) = 1"
  proof (rule Max_eqI)
    show "finite (?f ` set C)" by simp
    show "\<And>y. y \<in> ?f ` set C \<Longrightarrow> y \<le> 1" by (auto simp add: ratio_le_1)
    show "1 \<in> ?f ` set C" using c0 one [of c0] by (metis imageI)
  qed
  then have r: "find_best_match ratio q C = (find (\<lambda>c. ?f c = 1) C, 1)"
    using ne by (simp add: find_best_match_result)
  have "find (\<lambda>c. ?f c = 1) C = find (\<lambda>c. normalize_url c = normalize_url q) C"
    by (rule find_cong) (simp_all add: one)
  moreover obtain c where c: "find (\<lambda>c. normalize_url c = normalize_url q) C = Some c"
    using c0 by (cases "find (\<lambda>c. normalize_url c = normalize_url q) C")
                (auto simp add: find_None_iff)
  moreover from c have "c \<in> set C" "normalize_url c = normalize_url q"
    by (auto simp add: find_Some_iff)
  ultimately show ?thesis using r by auto
qed

theorem find_best_match_exact_witness:
  "normalize_url ''page'' = normalize_url ''/Page''
   \<and> find_best_match ratio ''/Page'' [''/pag'', ''page'', ''/PAGE''] = (Some ''page'', 1)"
proof -
  let ?C = "[''/pag'', ''page'', ''/PAGE'']"
  have n: "normalize_url ''page'' = normalize_url ''/Page''" by code_simp
  then have h: "\<exists>c\<in>set ?C. normalize_url c = normalize_url ''/Page''" by simp
  have f: "find (\<lambda>c. normalize_url c = normalize_url ''/Page'') ?C = Some ''page''" by code_simp
  from find_best_match_exact [OF h] f n show ?thesis by auto
qed


text \<open>
  C6. For every batch of new URLs and every list of candidates, the matched count
  plus the unmatched count that \<open>process_batch\<close> returns is the number of URLs in
  the batch.
\<close>

theorem process_batch_counts_sum:
  "fst (fst (process_batch sim batch old_urls batch_number output_dir fs))
     + snd (fst (process_batch sim batch old_urls batch_number output_dir fs)) = length batch"
  by (simp add: process_batch_counts length_rows)

















end
